theory Spec2Isabelle
  imports Complex_Main "HOL-Library.Monad_Syntax"
begin

section \<open>Data model of the buff tracker (Entities.js)\<close>

text \<open>
  Timestamps are JavaScript numbers holding the integral millisecond offsets of the
  combat log; they are modelled as \<^typ>\<open>int\<close>. A field that may hold \<^verbatim>\<open>null\<close> or
  \<^verbatim>\<open>undefined\<close> is an \<^typ>\<open>'a option\<close>.
\<close>

datatype event_type =
  ApplyBuff | ApplyDebuff | ApplyBuffStack | ApplyDebuffStack
  | RemoveBuffStack | RemoveDebuffStack | RemoveBuff | RemoveDebuff
  | Cast | Complete

record event =
  etype :: event_type
  timestamp :: int
  ability_guid :: nat
  sourceID :: "nat option"
  targetID :: "nat option"
  stack :: "int option"

text \<open>
  In \<open>sourceID\<close> and \<open>targetID\<close> the value \<^const>\<open>None\<close> is \<^verbatim>\<open>null\<close>, the value the
  query's source filter tests for; in \<open>stack\<close> it is the absent field of an event that
  carries no stack count.
\<close>

text \<open>An entry \<^verbatim>\<open>{stacks, timestamp}\<close> of a buff's \<^verbatim>\<open>stackHistory\<close>.\<close>

record history_entry =
  h_stacks :: "int option"
  h_timestamp :: int

text \<open>
  A buff is built as \<^verbatim>\<open>{...event, start, end, stackHistory, isDebuff}\<close>: it carries
  every field of the event it was made from, which is the record extension below.
  \<^verbatim>\<open>stacks\<close> is absent (\<^verbatim>\<open>undefined\<close>) until a handler assigns it, and
  \<^verbatim>\<open>isDebuff\<close> is \<^verbatim>\<open>undefined\<close> (falsy) when the handler is called with one
  argument.
\<close>

record buff = event +
  buff_start :: int
  buff_end :: "int option"
  stackHistory :: "history_entry list"
  isDebuff :: bool
  stacks :: "int option"

record entity =
  entity_id :: nat
  buffs :: "buff list"

record invuln =
  invuln_start :: int
  invuln_end :: int
  invuln_type :: string

text \<open>A fresh range object \<^verbatim>\<open>{start, end}\<close> made by the splitting branch.\<close>

record range =
  range_start :: int
  range_end :: "int option"

text \<open>
  The array \<^verbatim>\<open>ranges\<close> starts as \<^verbatim>\<open>[buff]\<close>: its first element is the buff object
  itself, not a copy. An element of the array is therefore either a reference to the
  buff being processed or a range object of its own.
\<close>

datatype range_ref = BuffRef | RangeObj range

datatype fake_type = APPLY | REMOVE

text \<open>
  The faked events pushed for the reduction. Their \<^verbatim>\<open>buff\<close> field is never read by
  the sort or by the reducer and is left out.
\<close>

record fake_event =
  fe_timestamp :: int
  fe_type :: fake_type

text \<open>
  The event handed to \<^verbatim>\<open>parser.fabricateEvent\<close>:
  \<^verbatim>\<open>{...buff, type, timestamp, oldStacks, newStacks, stacksGained}\<close>. The buff's fields are
  kept as a snapshot; \<^verbatim>\<open>stacksGained\<close> is \<^verbatim>\<open>NaN\<close> (here \<^const>\<open>None\<close>) when one of the
  stack counts is \<^verbatim>\<open>undefined\<close>.
\<close>

record fabricated_event =
  fab_buff :: buff
  fab_type :: string
  fab_timestamp :: int
  oldStacks :: "int option"
  newStacks :: "int option"
  stacksGained :: "int option"

text \<open>
  What the module reads from its surroundings, none of which is part of the tracker: the player's id, the current timestamp, the start of the
  fight, the relevance filter \<^verbatim>\<open>byPlayer(event) || toPlayer(event)\<close>, the abstract
  \<^verbatim>\<open>getEntity\<close> (the id of the entity an event addresses, if any) and
  \<^verbatim>\<open>invuln.getInvulns\<close>.
\<close>

record env =
  player_id :: nat
  currentTimestamp :: int
  fight_start_time :: int
  relevant :: "event \<Rightarrow> bool"
  getEntity :: "event \<Rightarrow> nat option"
  getInvulns :: "nat \<Rightarrow> invuln list"

text \<open>
  The tracker's state: the entities in the order \<^verbatim>\<open>Object.values\<close> enumerates them, the
  events handed to \<^verbatim>\<open>fabricateEvent\<close> (oldest first) and the lines written with
  \<^verbatim>\<open>console.error\<close>.
\<close>

record tracker =
  entities :: "entity list"
  fabricated :: "fabricated_event list"
  console :: "string list"

section \<open>JavaScript coercions\<close>

text \<open>In a relational comparison and in a subtraction \<^verbatim>\<open>null\<close> is the number 0.\<close>

fun to_number :: "int option \<Rightarrow> int" where
  "to_number None = 0"
| "to_number (Some v) = v"

text \<open>\<^verbatim>\<open>a || b\<close> on a number that may be null: 0 and \<^verbatim>\<open>null\<close> are falsy.\<close>

fun or_else :: "int option \<Rightarrow> int \<Rightarrow> int" where
  "or_else None d = d"
| "or_else (Some v) d = (if v = 0 then d else v)"

section \<open>getStatusUptime\<close>

subsection \<open>Subtracting the invulnerability windows\<close>

fun ref_start :: "buff \<Rightarrow> range_ref \<Rightarrow> int" where
  "ref_start b BuffRef = buff_start b"
| "ref_start b (RangeObj r) = range_start r"

fun ref_end :: "buff \<Rightarrow> range_ref \<Rightarrow> int option" where
  "ref_end b BuffRef = buff_end b"
| "ref_end b (RangeObj r) = range_end r"

text \<open>\<^verbatim>\<open>range.start = v\<close> and \<^verbatim>\<open>range.end = v\<close> for \<^verbatim>\<open>range = ranges[i]\<close>: an
  assignment through the buff reference writes the buff.\<close>

definition set_start :: "nat \<Rightarrow> int \<Rightarrow> buff \<times> range_ref list \<Rightarrow> buff \<times> range_ref list" where
  "set_start i v st =
     (case snd st ! i of
        BuffRef \<Rightarrow> ((fst st)\<lparr>buff_start := v\<rparr>, snd st)
      | RangeObj r \<Rightarrow> (fst st, (snd st)[i := RangeObj (r\<lparr>range_start := v\<rparr>)]))"

definition set_end :: "nat \<Rightarrow> int \<Rightarrow> buff \<times> range_ref list \<Rightarrow> buff \<times> range_ref list" where
  "set_end i v st =
     (case snd st ! i of
        BuffRef \<Rightarrow> ((fst st)\<lparr>buff_end := Some v\<rparr>, snd st)
      | RangeObj r \<Rightarrow> (fst st, (snd st)[i := RangeObj (r\<lparr>range_end := Some v\<rparr>)]))"

text \<open>\<^verbatim>\<open>ranges.splice(i, 1, a, b)\<close>, only ever called with \<^verbatim>\<open>i < ranges.length\<close>.\<close>

definition splice :: "nat \<Rightarrow> 'a \<Rightarrow> 'a \<Rightarrow> 'a list \<Rightarrow> 'a list" where
  "splice i a b xs = take i xs @ [a, b] @ drop (Suc i) xs"

text \<open>
  The loop \<^verbatim>\<open>for (let i = 0; i < ranges.length; i++)\<close> for one invulnerability window.
  The array grows while it is walked, so the loop is not bounded by the length the array
  had at its start; not returning is the value \<^const>\<open>None\<close>.
\<close>

partial_function (option) split_ranges ::
  "invuln \<Rightarrow> nat \<Rightarrow> buff \<times> range_ref list \<Rightarrow> (buff \<times> range_ref list) option" where
  "split_ranges iv i st =
     (if i < length (snd st) then
        (let range = snd st ! i;
             rs = ref_start (fst st) range;
             re = ref_end (fst st) range
         in if invuln_start iv < rs \<and> invuln_end iv > rs then
              split_ranges iv (i + 1) (set_start i (invuln_end iv) st)
            else if invuln_start iv < to_number re \<and> invuln_end iv > to_number re then
              split_ranges iv (i + 1) (set_end i (invuln_start iv) st)
            else if invuln_start iv > rs \<and> invuln_end iv < to_number re then
              split_ranges iv (i + 1)
                (fst st,
                 splice i
                   (RangeObj \<lparr>range_start = rs, range_end = Some (invuln_start iv)\<rparr>)
                   (RangeObj \<lparr>range_start = invuln_end iv, range_end = re\<rparr>)
                   (snd st))
            else split_ranges iv (i + 1) st)
      else Some st)"

declare split_ranges.simps [code]

text \<open>
  \<^verbatim>\<open>invulns.forEach\<close>: a window outside the span of the buff is discarded, reading the
  buff's fields as they are at that moment.
\<close>

fun subtract_invulns ::
  "invuln list \<Rightarrow> buff \<times> range_ref list \<Rightarrow> (buff \<times> range_ref list) option" where
  "subtract_invulns [] st = Some st"
| "subtract_invulns (iv # ivs) st =
     (if invuln_end iv < buff_start (fst st) \<or> invuln_start iv > to_number (buff_end (fst st))
      then subtract_invulns ivs st
      else (case split_ranges iv 0 st of
              None \<Rightarrow> None
            | Some st' \<Rightarrow> subtract_invulns ivs st'))"

subsection \<open>Faked events\<close>

definition range_events :: "env \<Rightarrow> buff \<Rightarrow> range_ref \<Rightarrow> fake_event list" where
  "range_events p b r =
     [\<lparr>fe_timestamp = ref_start b r, fe_type = APPLY\<rparr>,
      \<lparr>fe_timestamp = or_else (ref_end b r) (currentTimestamp p), fe_type = REMOVE\<rparr>]"

definition skipped :: "nat \<Rightarrow> nat \<Rightarrow> buff \<Rightarrow> bool" where
  "skipped statusId sourceId b \<longleftrightarrow>
     ability_guid b \<noteq> statusId \<or> (sourceID b \<noteq> Some sourceId \<and> sourceID b \<noteq> None)"

text \<open>\<^verbatim>\<open>entity.buffs.forEach\<close>: the buffs as the loop leaves them, and the events pushed.\<close>

fun buffs_events ::
  "env \<Rightarrow> invuln list \<Rightarrow> nat \<Rightarrow> nat \<Rightarrow> buff list \<Rightarrow> (buff list \<times> fake_event list) option" where
  "buffs_events p invulns statusId sourceId [] = Some ([], [])"
| "buffs_events p invulns statusId sourceId (b # bs) =
     (if skipped statusId sourceId b then
        (case buffs_events p invulns statusId sourceId bs of
           None \<Rightarrow> None
         | Some (bs', evs) \<Rightarrow> Some (b # bs', evs))
      else
        (case subtract_invulns invulns (b, [BuffRef]) of
           None \<Rightarrow> None
         | Some (b', ranges) \<Rightarrow>
             (case buffs_events p invulns statusId sourceId bs of
                None \<Rightarrow> None
              | Some (bs', evs) \<Rightarrow>
                  Some (b' # bs', concat (map (range_events p b') ranges) @ evs))))"

text \<open>\<^verbatim>\<open>this.invuln.getInvulns(entity.id).filter(invuln => invuln.type === 'invulnerable')\<close>\<close>

definition invulnerable_of :: "env \<Rightarrow> nat \<Rightarrow> invuln list" where
  "invulnerable_of p k = filter (\<lambda>i. invuln_type i = ''invulnerable'') (getInvulns p k)"

text \<open>\<^verbatim>\<open>Object.values(entities).forEach\<close>.\<close>

fun entities_events ::
  "env \<Rightarrow> nat \<Rightarrow> nat \<Rightarrow> entity list \<Rightarrow> (entity list \<times> fake_event list) option" where
  "entities_events p statusId sourceId [] = Some ([], [])"
| "entities_events p statusId sourceId (e # es) =
     (let invulns = invulnerable_of p (entity_id e)
      in case buffs_events p invulns statusId sourceId (buffs e) of
           None \<Rightarrow> None
         | Some (bs', evs) \<Rightarrow>
             (case entities_events p statusId sourceId es of
                None \<Rightarrow> None
              | Some (es', evs') \<Rightarrow> Some (e\<lparr>buffs := bs'\<rparr> # es', evs @ evs')))"

subsection \<open>The reduction\<close>

text \<open>
  The closure variables \<^verbatim>\<open>active\<close> and \<^verbatim>\<open>start\<close> and the accumulator \<^verbatim>\<open>uptime\<close> of the
  \<^verbatim>\<open>reduce\<close> callback.
\<close>

record sweep =
  active :: int
  sweep_start :: "int option"
  uptime :: int

definition on_apply :: "fake_event \<Rightarrow> sweep \<Rightarrow> sweep" where
  "on_apply ev s =
     (if fe_type ev = APPLY then
        (if active s = 0 then s\<lparr>sweep_start := Some (fe_timestamp ev)\<rparr> else s)\<lparr>active := active s + 1\<rparr>
      else s)"

definition on_remove :: "fake_event \<Rightarrow> sweep \<Rightarrow> sweep" where
  "on_remove ev s =
     (if fe_type ev = REMOVE then
        (let s' = s\<lparr>active := active s - 1\<rparr>
         in if active s' = 0 then s'\<lparr>uptime := uptime s' + (fe_timestamp ev - to_number (sweep_start s'))\<rparr>
            else s')
      else s)"

definition reducer :: "fake_event \<Rightarrow> sweep \<Rightarrow> sweep" where
  "reducer ev s = on_remove ev (on_apply ev s)"

text \<open>
  \<^verbatim>\<open>events.sort((a, b) => a.timestamp - b.timestamp).reduce(..., 0)\<close>. The sort is the
  stable sort of ECMAScript 2019: events with equal timestamps keep the order in which
  they were pushed, as \<^const>\<open>sort_key\<close> does.
\<close>

definition reduce_events :: "fake_event list \<Rightarrow> int" where
  "reduce_events events =
     uptime (fold reducer (sort_key fe_timestamp events) \<lparr>active = 0, sweep_start = None, uptime = 0\<rparr>)"

text \<open>
  The query. \<^verbatim>\<open>sourceId\<close> defaults to the player's id when the argument is omitted
  (\<^const>\<open>None\<close>). The result is the uptime together with the tracker as the call leaves
  it, since the call writes through the buff references.
\<close>

fun default_source :: "env \<Rightarrow> nat option \<Rightarrow> nat" where
  "default_source p None = player_id p"
| "default_source p (Some s) = s"

definition getStatusUptime ::
  "env \<Rightarrow> nat \<Rightarrow> nat option \<Rightarrow> tracker \<Rightarrow> (int \<times> tracker) option" where
  "getStatusUptime p statusId sourceId t =
     (let sid = default_source p sourceId
      in case entities_events p statusId sid (entities t) of
           None \<Rightarrow> None
         | Some (es', events) \<Rightarrow> Some (reduce_events events, t\<lparr>entities := es'\<rparr>))"

section \<open>Event handlers of the tracker\<close>

text \<open>
  \<^verbatim>\<open>Array.prototype.find\<close> returns a reference to the first element that satisfies the
  predicate; the reference is the element's position.
\<close>

fun find_index :: "('a \<Rightarrow> bool) \<Rightarrow> 'a list \<Rightarrow> nat option" where
  "find_index P [] = None"
| "find_index P (x # xs) = (if P x then Some 0 else map_option Suc (find_index P xs))"

text \<open>
  \<^verbatim>\<open>getBuffEventEntity\<close>: events irrelevant to the parsed player give \<^verbatim>\<open>null\<close>; the
  others are resolved by \<^verbatim>\<open>getEntity\<close>, and an id that no entity has is unresolved.
\<close>

definition getBuffEventEntity :: "env \<Rightarrow> tracker \<Rightarrow> event \<Rightarrow> nat option" where
  "getBuffEventEntity p t ev =
     (if \<not> relevant p ev then None
      else case getEntity p ev of
             None \<Rightarrow> None
           | Some k \<Rightarrow> find_index (\<lambda>e. entity_id e = k) (entities t))"

definition triggerChangeBuffStack ::
  "buff \<Rightarrow> int \<Rightarrow> int option \<Rightarrow> int option \<Rightarrow> tracker \<Rightarrow> tracker" where
  "triggerChangeBuffStack b ts old new t =
     t\<lparr>fabricated := fabricated t @
         [\<lparr>fab_buff = b,
           fab_type = (if isDebuff b then ''changedebuffstack'' else ''changebuffstack''),
           fab_timestamp = ts,
           oldStacks = old,
           newStacks = new,
           stacksGained = (case (new, old) of (Some n, Some k) \<Rightarrow> Some (n - k) | _ \<Rightarrow> None)\<rparr>]\<rparr>"

text \<open>\<^verbatim>\<open>{...event, start, end: null, stackHistory: [{stacks: 1, timestamp: start}], isDebuff}\<close>\<close>

definition new_buff :: "event \<Rightarrow> int \<Rightarrow> bool \<Rightarrow> buff" where
  "new_buff ev st deb =
     event.extend ev
       (buff.fields st None [\<lparr>h_stacks = Some 1, h_timestamp = st\<rparr>] deb None)"

definition is_open :: "nat \<Rightarrow> buff \<Rightarrow> bool" where
  "is_open g b \<longleftrightarrow> ability_guid b = g \<and> buff_end b = None"

definition applyBuff :: "env \<Rightarrow> event \<Rightarrow> bool \<Rightarrow> tracker \<Rightarrow> tracker" where
  "applyBuff p ev deb t =
     (case getBuffEventEntity p t ev of
        None \<Rightarrow> t
      | Some n \<Rightarrow>
          (let b = (new_buff ev (timestamp ev) deb)\<lparr>stacks := Some 1\<rparr>;
               t' = triggerChangeBuffStack b (timestamp ev) (Some 0) (Some 1) t;
               entity = entities t' ! n
           in t'\<lparr>entities := (entities t')[n := entity\<lparr>buffs := buffs entity @ [b]\<rparr>]\<rparr>))"

definition stack_warning :: string where
  "stack_warning = ''Buff stack updated while active buff was not known.''"

definition updateBuffStack :: "env \<Rightarrow> event \<Rightarrow> tracker \<Rightarrow> tracker" where
  "updateBuffStack p ev t =
     (case getBuffEventEntity p t ev of
        None \<Rightarrow> t
      | Some n \<Rightarrow>
          (let entity = entities t ! n
           in case find_index (is_open (ability_guid ev)) (buffs entity) of
                None \<Rightarrow> t\<lparr>console := console t @ [stack_warning]\<rparr>
              | Some j \<Rightarrow>
                  (let b = buffs entity ! j;
                       old = or_else (stacks b) 1;
                       b' = b\<lparr>stacks := stack ev,
                              stackHistory := stackHistory b @
                                [\<lparr>h_stacks = stack ev, h_timestamp = timestamp ev\<rparr>]\<rparr>;
                       t' = t\<lparr>entities := (entities t)[n := entity\<lparr>buffs := (buffs entity)[j := b']\<rparr>]\<rparr>
                   in triggerChangeBuffStack b' (timestamp ev) (Some old) (stacks b') t')))"

definition removeBuff :: "env \<Rightarrow> event \<Rightarrow> bool \<Rightarrow> tracker \<Rightarrow> tracker" where
  "removeBuff p ev deb t =
     (case getBuffEventEntity p t ev of
        None \<Rightarrow> t
      | Some n \<Rightarrow>
          (let entity = entities t ! n;
               (bs, j) =
                 (case find_index (is_open (ability_guid ev)) (buffs entity) of
                    None \<Rightarrow> (buffs entity @ [new_buff ev (fight_start_time p) deb],
                             length (buffs entity))
                  | Some j \<Rightarrow> (buffs entity, j));
               b = bs ! j;
               b' = b\<lparr>buff_end := Some (timestamp ev),
                      stackHistory := stackHistory b @
                        [\<lparr>h_stacks = Some 0, h_timestamp = timestamp ev\<rparr>]\<rparr>;
               t' = t\<lparr>entities := (entities t)[n := entity\<lparr>buffs := bs[j := b']\<rparr>]\<rparr>
           in triggerChangeBuffStack b' (timestamp ev) (stacks b') (Some 0) t'))"

text \<open>The \<^verbatim>\<open>on_<type>\<close> methods.\<close>

fun on_event :: "env \<Rightarrow> event \<Rightarrow> tracker \<Rightarrow> tracker" where
  "on_event p ev t =
     (case etype ev of
        ApplyBuff \<Rightarrow> applyBuff p ev False t
      | ApplyDebuff \<Rightarrow> applyBuff p ev True t
      | ApplyBuffStack \<Rightarrow> updateBuffStack p ev t
      | ApplyDebuffStack \<Rightarrow> updateBuffStack p ev t
      | RemoveBuffStack \<Rightarrow> updateBuffStack p ev t
      | RemoveDebuffStack \<Rightarrow> updateBuffStack p ev t
      | RemoveBuff \<Rightarrow> removeBuff p ev False t
      | RemoveDebuff \<Rightarrow> removeBuff p ev True t
      | _ \<Rightarrow> t)"

section \<open>The Requiescat window classifier\<close>

record RequiescatState =
  start :: "int option"
  holySpirits :: int

record RequiescatErrorResult =
  missedHolySpirits :: int
  missedRequiescatBuffs :: int

record requiescat =
  requiescatState :: RequiescatState
  requiescatRotations :: "int \<rightharpoonup> event list"
  requiescatErrorResult :: RequiescatErrorResult

text \<open>
  The ids the module reads from the tables \<^verbatim>\<open>ACTIONS\<close> and \<^verbatim>\<open>STATUSES\<close>, which are
  opaque lookup data.
\<close>

record game_data =
  ATTACK :: nat
  REQUIESCAT :: nat
  HOLY_SPIRIT :: nat
  STATUS_REQUIESCAT :: nat

text \<open>\<^verbatim>\<open>combatants.selected.resources\<close> at the time of a cast.\<close>

record resources =
  mp :: int
  maxMP :: int

definition TICK_AMOUNT :: int where "TICK_AMOUNT = 141"
definition MP_THRESHOLD :: real where "MP_THRESHOLD = 0.8"
definition EXPECTED :: int where "EXPECTED = 5"

definition new_RequiescatState :: RequiescatState where
  "new_RequiescatState = \<lparr>start = None, holySpirits = 0\<rparr>"

definition new_requiescat :: requiescat where
  "new_requiescat =
     \<lparr>requiescatState = new_RequiescatState,
      requiescatRotations = Map.empty,
      requiescatErrorResult = \<lparr>missedHolySpirits = 0, missedRequiescatBuffs = 0\<rparr>\<rparr>"

text \<open>
  \<^verbatim>\<open>(mp + TICK_AMOUNT) / maxMP >= MP_THRESHOLD\<close> on numbers: a division by zero gives
  \<^verbatim>\<open>Infinity\<close>, \<^verbatim>\<open>-Infinity\<close> or \<^verbatim>\<open>NaN\<close>, of which only the first passes the
  comparison. The quotient is taken exactly.
\<close>

definition mp_gate :: "resources \<Rightarrow> bool" where
  "mp_gate r \<longleftrightarrow>
     (if maxMP r = 0 then 0 < mp r + TICK_AMOUNT
      else real_of_int (mp r + TICK_AMOUNT) / real_of_int (maxMP r) \<ge> MP_THRESHOLD)"

definition onCast :: "game_data \<Rightarrow> resources \<Rightarrow> event \<Rightarrow> requiescat \<Rightarrow> requiescat" where
  "onCast d r ev s =
     (let actionId = ability_guid ev
      in if actionId = ATTACK d then s
         else
           (let s1 =
                  (if actionId = REQUIESCAT d then
                     (if mp_gate r then
                        s\<lparr>requiescatState := (requiescatState s)\<lparr>start := Some (timestamp ev)\<rparr>\<rparr>
                      else
                        s\<lparr>requiescatErrorResult := (requiescatErrorResult s)
                            \<lparr>missedRequiescatBuffs :=
                               missedRequiescatBuffs (requiescatErrorResult s) + 1\<rparr>\<rparr>)
                   else s)
            in case start (requiescatState s1) of
                 None \<Rightarrow> s1
               | Some key \<Rightarrow>
                   (let s2 =
                          (if actionId = HOLY_SPIRIT d then
                             s1\<lparr>requiescatState := (requiescatState s1)
                                 \<lparr>holySpirits := holySpirits (requiescatState s1) + 1\<rparr>\<rparr>
                           else s1);
                        rotation =
                          (case requiescatRotations s2 key of None \<Rightarrow> [] | Some evs \<Rightarrow> evs)
                    in s2\<lparr>requiescatRotations :=
                            (requiescatRotations s2)(key \<mapsto> rotation @ [ev])\<rparr>)))"

definition onRemoveRequiescat :: "requiescat \<Rightarrow> requiescat" where
  "onRemoveRequiescat s =
     s\<lparr>requiescatErrorResult := (requiescatErrorResult s)
         \<lparr>missedHolySpirits :=
            missedHolySpirits (requiescatErrorResult s)
              + max 0 (EXPECTED - holySpirits (requiescatState s))\<rparr>,
       requiescatState := new_RequiescatState\<rparr>"

text \<open>
  \<^verbatim>\<open>holySpiritCount\<close> of \<^verbatim>\<open>RotationTableRow\<close>: the number of Holy Spirit casts in the
  rotation recorded for a window.
\<close>

definition holySpiritCount :: "game_data \<Rightarrow> event list \<Rightarrow> nat" where
  "holySpiritCount d rotation =
     length (filter (\<lambda>event. ability_guid event = HOLY_SPIRIT d) rotation)"

text \<open>
  Modelled from the spec: the hook dispatch of \<^verbatim>\<open>Module.addHook\<close>, which is not part of
  the sources. \<^verbatim>\<open>init\<close> registers \<^verbatim>\<open>onCast\<close> for casts by the player and
  \<^verbatim>\<open>onRemoveRequiescat\<close> for removals, by the player, of the Requiescat status; the
  handler of \<^verbatim>\<open>complete\<close> only reports the tallies and leaves them as they are.
\<close>

definition by_player :: "nat \<Rightarrow> event \<Rightarrow> bool" where
  "by_player pid ev \<longleftrightarrow> sourceID ev = Some pid"

definition dispatch ::
  "game_data \<Rightarrow> nat \<Rightarrow> resources \<Rightarrow> event \<Rightarrow> requiescat \<Rightarrow> requiescat" where
  "dispatch d pid r ev s =
     (if etype ev = Cast \<and> by_player pid ev then onCast d r ev s
      else if etype ev = RemoveBuff \<and> by_player pid ev \<and> ability_guid ev = STATUS_REQUIESCAT d
      then onRemoveRequiescat s
      else s)"

section \<open>Invariants and example inputs\<close>

text \<open>
  The buffs a query selects, each with the id of the entity that holds it, in the order
  in which the query visits them.
\<close>

definition selected :: "nat \<Rightarrow> nat \<Rightarrow> entity list \<Rightarrow> (nat \<times> buff) list" where
  "selected statusId sourceId es =
     concat (map (\<lambda>e. map (Pair (entity_id e))
                          (filter (\<lambda>b. \<not> skipped statusId sourceId b) (buffs e))) es)"

text \<open>
  The step of the splitting loop at index \<open>i\<close> takes the third branch, and the measure
  that decreases along the loop for a window with \<open>start \<le> end\<close>.
\<close>

definition takes_split :: "invuln \<Rightarrow> nat \<Rightarrow> buff \<times> range_ref list \<Rightarrow> bool" where
  "takes_split iv i st \<longleftrightarrow>
     i < length (snd st) \<and>
     (let range = snd st ! i;
          rs = ref_start (fst st) range;
          re = to_number (ref_end (fst st) range)
      in \<not> (invuln_start iv < rs \<and> invuln_end iv > rs)
       \<and> \<not> (invuln_start iv < re \<and> invuln_end iv > re)
       \<and> invuln_start iv > rs \<and> invuln_end iv < re)"

definition loop_measure :: "invuln \<Rightarrow> nat \<Rightarrow> buff \<times> range_ref list \<Rightarrow> nat" where
  "loop_measure iv i st = 2 * (length (snd st) - i) + (if takes_split iv i st then 1 else 0)"

text \<open>
  The buff that \<^verbatim>\<open>removeBuff\<close> is to leave behind when it finds no open buff: opened at
  the start of the fight with one stack, closed at the event.
\<close>

definition synthesized :: "env \<Rightarrow> event \<Rightarrow> bool \<Rightarrow> buff" where
  "synthesized p ev deb =
     (new_buff ev (fight_start_time p) deb)
       \<lparr>buff_end := Some (timestamp ev),
        stackHistory := [\<lparr>h_stacks = Some 1, h_timestamp = fight_start_time p\<rparr>,
                         \<lparr>h_stacks = Some 0, h_timestamp = timestamp ev\<rparr>]\<rparr>"

text \<open>At most one open buff per ability in a buff list, and in every entity of a tracker.\<close>

definition one_open :: "buff list \<Rightarrow> bool" where
  "one_open bs \<longleftrightarrow> distinct (map ability_guid (filter (\<lambda>b. buff_end b = None) bs))"

definition tracker_inv :: "tracker \<Rightarrow> bool" where
  "tracker_inv t \<longleftrightarrow> list_all (\<lambda>e. one_open (buffs e)) (entities t)"

definition is_apply :: "event \<Rightarrow> bool" where
  "is_apply ev \<longleftrightarrow> etype ev = ApplyBuff \<or> etype ev = ApplyDebuff"

definition apply_is_fresh :: "env \<Rightarrow> tracker \<Rightarrow> event \<Rightarrow> bool" where
  "apply_is_fresh p t ev \<longleftrightarrow>
     (if is_apply ev then
        (case getBuffEventEntity p t ev of
           None \<Rightarrow> True
         | Some n \<Rightarrow> find_index (is_open (ability_guid ev)) (buffs (entities t ! n)) = None)
      else True)"

fun no_reapply :: "env \<Rightarrow> tracker \<Rightarrow> event list \<Rightarrow> bool" where
  "no_reapply p t [] = True"
| "no_reapply p t (ev # evs) = (apply_is_fresh p t ev \<and> no_reapply p (on_event p ev t) evs)"

definition ex_env :: "(nat \<Rightarrow> invuln list) \<Rightarrow> env" where
  "ex_env gi = \<lparr>player_id = 1, currentTimestamp = 100, fight_start_time = 2, relevant = (\<lambda>_. True),
                getEntity = targetID, getInvulns = gi\<rparr>"

definition ex_event :: "event_type \<Rightarrow> int \<Rightarrow> event" where
  "ex_event ty ts = \<lparr>etype = ty, timestamp = ts, ability_guid = 7, sourceID = Some 1,
                     targetID = Some 2, stack = None\<rparr>"

definition ex_tracker :: "buff list \<Rightarrow> tracker" where
  "ex_tracker bs = \<lparr>entities = [\<lparr>entity_id = 2, buffs = bs\<rparr>], fabricated = [], console = []\<rparr>"

definition ex_buff :: "nat option \<Rightarrow> int \<Rightarrow> int option \<Rightarrow> buff" where
  "ex_buff src s e =
     (new_buff ((ex_event ApplyBuff s)\<lparr>sourceID := src\<rparr>) s False)\<lparr>buff_end := e, stacks := Some 1\<rparr>"

definition ex_invuln :: "int \<Rightarrow> int \<Rightarrow> invuln" where
  "ex_invuln s e = \<lparr>invuln_start = s, invuln_end = e, invuln_type = ''invulnerable''\<rparr>"

definition ex_tracker2 :: "buff list \<Rightarrow> buff list \<Rightarrow> tracker" where
  "ex_tracker2 bs cs =
     \<lparr>entities = [\<lparr>entity_id = 2, buffs = bs\<rparr>, \<lparr>entity_id = 3, buffs = cs\<rparr>],
      fabricated = [], console = []\<rparr>"

text \<open>Invulnerability windows on entity 2 only.\<close>

definition on_entity_2 :: "invuln list \<Rightarrow> nat \<Rightarrow> invuln list" where
  "on_entity_2 ivs k = (if k = 2 then ivs else [])"

definition ex_data :: game_data where
  "ex_data = \<lparr>ATTACK = 7, REQUIESCAT = 7383, HOLY_SPIRIT = 7384, STATUS_REQUIESCAT = 1368\<rparr>"

definition ex_cast :: "nat \<Rightarrow> int \<Rightarrow> event" where
  "ex_cast g ts = \<lparr>etype = Cast, timestamp = ts, ability_guid = g, sourceID = Some 1,
                   targetID = Some 2, stack = None\<rparr>"







definition idle_ok :: "requiescat \<Rightarrow> bool" where
  "idle_ok s \<longleftrightarrow> (start (requiescatState s) = None \<longrightarrow> holySpirits (requiescatState s) = 0)"

section \<open>Basic facts\<close>

lemma skipped_ex_buff [simp]:
  "skipped 7 q (ex_buff src s e) \<longleftrightarrow> src \<noteq> Some q \<and> src \<noteq> None"
  by (simp add: skipped_def ex_buff_def ex_event_def new_buff_def event.defs buff.defs)

lemma ex_buff_sel [simp]:
  "buff_start (ex_buff src s e) = s" "buff_end (ex_buff src s e) = e"
  "ability_guid (ex_buff src s e) = 7" "sourceID (ex_buff src s e) = src"
  by (simp_all add: ex_buff_def ex_event_def new_buff_def event.defs buff.defs)

section \<open>The window classifier\<close>

lemmas requiescat_defs = onCast_def onRemoveRequiescat_def dispatch_def by_player_def mp_gate_def
  TICK_AMOUNT_def MP_THRESHOLD_def EXPECTED_def new_RequiescatState_def new_requiescat_def

text \<open>
  C7. A cast of Requiescat (an action other than the excluded default attack, by a player
  with a positive maximum of MP) opens a window exactly when the gate
  \<open>(mp + 141) / maxMP \<ge> 0.8\<close> passes: then \<open>start\<close> is set to the timestamp of the cast, the
  rotation of that timestamp is recorded and no tally changes. When the gate fails,
  \<open>missedRequiescatBuffs\<close> grows by exactly one, \<open>start\<close> is left as it was and no rotation
  is begun under a new key. The quotient is the exact one; the double-precision quotient
  of the source decides the comparison the same way for every maximum below \<open>10\<^sup>1\<^sup>6\<close>.
\<close>

theorem requiescat_cast_gate:
  assumes "ability_guid ev = REQUIESCAT d" and "REQUIESCAT d \<noteq> ATTACK d" and "0 < maxMP r"
  shows "(if real_of_int (mp r + 141) / real_of_int (maxMP r) \<ge> 0.8
          then start (requiescatState (onCast d r ev s)) = Some (timestamp ev)
             \<and> requiescatRotations (onCast d r ev s) (timestamp ev) \<noteq> None
             \<and> requiescatErrorResult (onCast d r ev s) = requiescatErrorResult s
          else start (requiescatState (onCast d r ev s)) = start (requiescatState s)
             \<and> dom (requiescatRotations (onCast d r ev s)) \<subseteq> dom (requiescatRotations s) \<union> set_option (start (requiescatState s))
             \<and> missedRequiescatBuffs (requiescatErrorResult (onCast d r ev s))
                 = missedRequiescatBuffs (requiescatErrorResult s) + 1
             \<and> missedHolySpirits (requiescatErrorResult (onCast d r ev s))
                 = missedHolySpirits (requiescatErrorResult s))"
  using assms by (auto simp: requiescat_defs Let_def split: option.splits)

text \<open>At 85% of 10000 MP the window opens; at 70% the tally is incremented instead.\<close>

theorem requiescat_cast_gate_witness:
  "start (requiescatState (onCast ex_data \<lparr>mp = 8500, maxMP = 10000\<rparr> (ex_cast 7383 2000) new_requiescat)) = Some 2000
   \<and> missedRequiescatBuffs (requiescatErrorResult (onCast ex_data \<lparr>mp = 8500, maxMP = 10000\<rparr> (ex_cast 7383 2000) new_requiescat)) = 0
   \<and> start (requiescatState (onCast ex_data \<lparr>mp = 7000, maxMP = 10000\<rparr> (ex_cast 7383 2000) new_requiescat)) = None
   \<and> missedRequiescatBuffs (requiescatErrorResult (onCast ex_data \<lparr>mp = 7000, maxMP = 10000\<rparr> (ex_cast 7383 2000) new_requiescat)) = 1"
  using requiescat_cast_gate [of "ex_cast 7383 2000" ex_data "\<lparr>mp = 8500, maxMP = 10000\<rparr>" new_requiescat]
    requiescat_cast_gate [of "ex_cast 7383 2000" ex_data "\<lparr>mp = 7000, maxMP = 10000\<rparr>" new_requiescat]
  by (simp add: ex_data_def ex_cast_def new_requiescat_def new_RequiescatState_def)

text \<open>What the removal handler does to the tallies, the rotations and the state.\<close>

lemma onRemoveRequiescat_tally:
  "missedHolySpirits (requiescatErrorResult (onRemoveRequiescat s))
     = missedHolySpirits (requiescatErrorResult s) + max 0 (5 - holySpirits (requiescatState s))
   \<and> missedRequiescatBuffs (requiescatErrorResult (onRemoveRequiescat s))
     = missedRequiescatBuffs (requiescatErrorResult s)
   \<and> requiescatRotations (onRemoveRequiescat s) = requiescatRotations s
   \<and> requiescatState (onRemoveRequiescat s) = new_RequiescatState"
  by (simp add: requiescat_defs)

text \<open>
  While a window is open, a cast that does not open another one keeps the window, adds
  itself to the rotation unless it is the excluded attack, and counts if it is a Holy
  Spirit.
\<close>

lemma holySpiritCount_simps [simp]:
  "holySpiritCount d [] = 0"
  "holySpiritCount d (x # xs)
     = (if ability_guid x = HOLY_SPIRIT d then 1 else 0) + holySpiritCount d xs"
  "holySpiritCount d (xs @ ys) = holySpiritCount d xs + holySpiritCount d ys"
  by (simp_all add: holySpiritCount_def)







text \<open>
  C10. A removal of the Requiescat status by the player that arrives while no window is
  open (\<open>start\<close> is null and no Holy Spirit is counted) is still handled by
  \<open>onRemoveRequiescat\<close>: \<open>missedHolySpirits\<close> grows by the full expected count of 5,
  although no rotation is recorded for it and no window was open.
\<close>

theorem remove_requiescat_idle:
  assumes "start (requiescatState s) = None" and "holySpirits (requiescatState s) = 0"
    and "etype ev = RemoveBuff" and "by_player pid ev" and "ability_guid ev = STATUS_REQUIESCAT d"
  shows "dispatch d pid r ev s = onRemoveRequiescat s
    \<and> missedHolySpirits (requiescatErrorResult (onRemoveRequiescat s))
        = missedHolySpirits (requiescatErrorResult s) + 5
    \<and> requiescatRotations (onRemoveRequiescat s) = requiescatRotations s
    \<and> start (requiescatState (onRemoveRequiescat s)) = None"
  using assms by (simp add: requiescat_defs)

theorem remove_requiescat_idle_witness:
  "missedHolySpirits (requiescatErrorResult
      (dispatch ex_data 1 \<lparr>mp = 0, maxMP = 10000\<rparr> ((ex_cast 1368 3000)\<lparr>etype := RemoveBuff\<rparr>) new_requiescat)) = 5
   \<and> requiescatRotations
      (dispatch ex_data 1 \<lparr>mp = 0, maxMP = 10000\<rparr> ((ex_cast 1368 3000)\<lparr>etype := RemoveBuff\<rparr>) new_requiescat) = Map.empty"
  using remove_requiescat_idle [of new_requiescat "(ex_cast 1368 3000)\<lparr>etype := RemoveBuff\<rparr>" 1 ex_data "\<lparr>mp = 0, maxMP = 10000\<rparr>"]
  by (simp add: ex_data_def ex_cast_def new_requiescat_def new_RequiescatState_def by_player_def)

text \<open>Whenever no window is open the counter of Holy Spirits is 0.\<close>

lemma dispatch_idle_ok: "idle_ok s \<Longrightarrow> idle_ok (dispatch d pid r ev s)"
  by (auto simp: idle_ok_def requiescat_defs Let_def split: option.splits)

lemma run_idle_ok: "idle_ok s \<Longrightarrow> idle_ok (fold (\<lambda>(r, ev). dispatch d pid r ev) evs s)"
  by (induction evs arbitrary: s) (auto simp: dispatch_idle_ok)

section \<open>The uptime query\<close>

text \<open>
  When subtracting the invulnerability windows leaves every selected buff as it is,
  the query leaves the tracker as it is, and its events are those of the ranges.
\<close>

lemma buffs_events_frame:
  assumes "\<forall>b\<in>set bs. \<not> skipped sid src b \<longrightarrow> subtract_invulns ivs (b, [BuffRef]) = Some (b, R b)"
  shows "buffs_events p ivs sid src bs =
    Some (bs, concat (map (\<lambda>b. concat (map (range_events p b) (R b)))
                          (filter (\<lambda>b. \<not> skipped sid src b) bs)))"
  using assms by (induction bs) auto

lemma entities_events_frame:
  assumes "\<forall>(k, b)\<in>set (selected sid src es).
             subtract_invulns (invulnerable_of p k) (b, [BuffRef]) = Some (b, R k b)"
  shows "entities_events p sid src es =
    Some (es, concat (map (\<lambda>(k, b). concat (map (range_events p b) (R k b)))
                          (selected sid src es)))"
  using assms
proof (induction es)
  case Nil
  then show ?case by (simp add: selected_def)
next
  case (Cons e es)
  have 1: "\<forall>b\<in>set (buffs e). \<not> skipped sid src b \<longrightarrow>
      subtract_invulns (invulnerable_of p (entity_id e)) (b, [BuffRef]) = Some (b, R (entity_id e) b)"
    using Cons.prems by (auto simp: selected_def)
  have 2: "\<forall>(k, b)\<in>set (selected sid src es).
      subtract_invulns (invulnerable_of p k) (b, [BuffRef]) = Some (b, R k b)"
    using Cons.prems by (auto simp: selected_def)
  show ?case
    using buffs_events_frame [OF 1, of p] Cons.IH [OF 2]
    by (simp add: selected_def map_concat comp_def)
qed

lemma getStatusUptime_frame:
  assumes "\<forall>(k, b)\<in>set (selected sid (default_source p src) (entities t)).
             subtract_invulns (invulnerable_of p k) (b, [BuffRef]) = Some (b, R k b)"
  shows "getStatusUptime p sid src t =
    Some (reduce_events (concat (map (\<lambda>(k, b). concat (map (range_events p b) (R k b)))
                          (selected sid (default_source p src) (entities t)))), t)"
  using entities_events_frame [OF assms] by (simp add: getStatusUptime_def)

lemmas sweep_defs = reduce_events_def reducer_def on_apply_def on_remove_def range_events_def

lemma reduce_two_overlapping:
  assumes "sa \<le> ea" and "sb \<le> eb" and "sa \<le> eb" and "sb \<le> ea"
  shows "reduce_events
     [\<lparr>fe_timestamp = sa, fe_type = APPLY\<rparr>, \<lparr>fe_timestamp = ea, fe_type = REMOVE\<rparr>,
      \<lparr>fe_timestamp = sb, fe_type = APPLY\<rparr>, \<lparr>fe_timestamp = eb, fe_type = REMOVE\<rparr>]
     = max ea eb - min sa sb"
  using assms by (auto simp: sweep_defs Let_def)

text \<open>
  The splitting loop returns for every window with \<open>start \<le> end\<close>, and so does the
  query when all windows are such.
\<close>

lemma length_set_start [simp]: "length (snd (set_start i v st)) = length (snd st)"
  by (simp add: set_start_def split: range_ref.splits)

lemma length_set_end [simp]: "length (snd (set_end i v st)) = length (snd st)"
  by (simp add: set_end_def split: range_ref.splits)

lemma length_splice [simp]: "i < length xs \<Longrightarrow> length (splice i a b xs) = Suc (length xs)"
  by (simp add: splice_def)

lemma nth_splice_Suc [simp]: "i < length xs \<Longrightarrow> splice i a b xs ! Suc i = b"
  by (simp add: splice_def nth_append)

lemma loop_measure_step:
  assumes "i < length (snd st)" and "length (snd st') = length (snd st)"
  shows "loop_measure iv (i + 1) st' < loop_measure iv i st"
proof -
  have "2 * (length (snd st) - Suc i) + 2 \<le> 2 * (length (snd st) - i)"
    using assms(1) by arith
  then show ?thesis using assms(2) by (simp add: loop_measure_def)
qed

lemma split_ranges_total:
  assumes "invuln_start iv \<le> invuln_end iv"
  shows "\<exists>st'. split_ranges iv i st = Some st'"
proof (induction "loop_measure iv i st" arbitrary: i st rule: less_induct)
  case less
  show ?case
  proof (cases "i < length (snd st)")
    case False
    then show ?thesis by (subst split_ranges.simps) simp
  next
    case True
    let ?r = "snd st ! i"
    let ?rs = "ref_start (fst st) ?r"
    let ?re = "ref_end (fst st) ?r"
    have step: "\<exists>st'. split_ranges iv (i + 1) st'' = Some st'"
      if "loop_measure iv (i + 1) st'' < loop_measure iv i st" for st''
      using less [OF that] .
    consider (a) "invuln_start iv < ?rs \<and> invuln_end iv > ?rs"
      | (b) "\<not> (invuln_start iv < ?rs \<and> invuln_end iv > ?rs)"
            "invuln_start iv < to_number ?re \<and> invuln_end iv > to_number ?re"
      | (c) "takes_split iv i st"
      | (d) "\<not> (invuln_start iv < ?rs \<and> invuln_end iv > ?rs)"
            "\<not> (invuln_start iv < to_number ?re \<and> invuln_end iv > to_number ?re)"
            "\<not> (invuln_start iv > ?rs \<and> invuln_end iv < to_number ?re)"
      using True by (auto simp: takes_split_def Let_def)
    then show ?thesis
    proof cases
      case a
      have "loop_measure iv (i + 1) (set_start i (invuln_end iv) st) < loop_measure iv i st"
        using True by (intro loop_measure_step) simp_all
      from step [OF this] show ?thesis
        using True a by (subst split_ranges.simps) (simp add: Let_def)
    next
      case b
      have "loop_measure iv (i + 1) (set_end i (invuln_start iv) st) < loop_measure iv i st"
        using True by (intro loop_measure_step) simp_all
      from step [OF this] show ?thesis
        using True b by (subst split_ranges.simps) (auto simp: Let_def)
    next
      case c
      let ?st = "(fst st,
                 splice i
                   (RangeObj \<lparr>range_start = ?rs, range_end = Some (invuln_start iv)\<rparr>)
                   (RangeObj \<lparr>range_start = invuln_end iv, range_end = ?re\<rparr>)
                   (snd st))"
      have "\<not> takes_split iv (i + 1) ?st"
        using True assms by (simp add: takes_split_def Let_def)
      moreover have "length (snd ?st) - (i + 1) = length (snd st) - i"
        using True by simp
      ultimately have "loop_measure iv (i + 1) ?st < loop_measure iv i st"
        using c by (simp add: loop_measure_def)
      from step [OF this] show ?thesis
        using True c by (subst split_ranges.simps) (auto simp: Let_def takes_split_def)
    next
      case d
      have "loop_measure iv (i + 1) st < loop_measure iv i st"
        using True by (intro loop_measure_step) simp_all
      from step [OF this] show ?thesis
        using True d by (subst split_ranges.simps) (auto simp: Let_def)
    qed
  qed
qed

lemma subtract_invulns_total:
  assumes "\<forall>iv\<in>set ivs. invuln_start iv \<le> invuln_end iv"
  shows "\<exists>st'. subtract_invulns ivs st = Some st'"
  using assms
proof (induction ivs arbitrary: st)
  case Nil
  then show ?case by simp
next
  case (Cons iv ivs)
  obtain st1 where "split_ranges iv 0 st = Some st1"
    using split_ranges_total [of iv 0 st] Cons.prems by auto
  then show ?case using Cons by auto
qed

lemma buffs_events_total:
  assumes "\<forall>iv\<in>set ivs. invuln_start iv \<le> invuln_end iv"
  shows "\<exists>r. buffs_events p ivs sid src bs = Some r"
proof (induction bs)
  case Nil
  then show ?case by simp
next
  case (Cons b bs)
  obtain st where "subtract_invulns ivs (b, [BuffRef]) = Some st"
    using subtract_invulns_total [OF assms] by blast
  then show ?case using Cons by (cases st) auto
qed

lemma entities_events_total:
  assumes "\<forall>k. \<forall>iv\<in>set (invulnerable_of p k). invuln_start iv \<le> invuln_end iv"
  shows "\<exists>r. entities_events p sid src es = Some r"
proof (induction es)
  case Nil
  then show ?case by simp
next
  case (Cons e es)
  obtain r where "buffs_events p (invulnerable_of p (entity_id e)) sid src (buffs e) = Some r"
    using buffs_events_total assms by blast
  then show ?case using Cons by (cases r) auto
qed

lemma getStatusUptime_total:
  assumes "\<forall>k. \<forall>iv\<in>set (invulnerable_of p k). invuln_start iv \<le> invuln_end iv"
  shows "\<exists>r. getStatusUptime p sid src t = Some r"
proof -
  obtain r where "entities_events p sid (default_source p src) (entities t) = Some r"
    using entities_events_total [OF assms] by blast
  then show ?thesis by (cases r) (simp add: getStatusUptime_def)
qed

text \<open>
  For a window with \<open>end < start\<close> that falls inside a range, the loop splits the second
  half again and again and never returns.
\<close>

lemma split_ranges_diverges_aux:
  assumes "split_ranges iv i st = Some y"
  shows "\<not> (takes_split iv i st \<and> invuln_end iv < invuln_start iv)"
proof (rule split_ranges.raw_induct
    [where P = "\<lambda>iv i st y. \<not> (takes_split iv i st \<and> invuln_end iv < invuln_start iv)",
      OF _ assms], goal_cases)
  case (1 f w j s z)
  show ?case
  proof
    assume inv: "takes_split w j s \<and> invuln_end w < invuln_start w"
    let ?s = "(fst s,
                 splice j
                   (RangeObj \<lparr>range_start = ref_start (fst s) (snd s ! j),
                              range_end = Some (invuln_start w)\<rparr>)
                   (RangeObj \<lparr>range_start = invuln_end w,
                              range_end = ref_end (fst s) (snd s ! j)\<rparr>)
                   (snd s))"
    have "f w (j + 1) ?s = Some z"
      using "1"(2) inv by (auto simp: takes_split_def Let_def)
    moreover have "takes_split w (j + 1) ?s"
      using inv by (auto simp: takes_split_def Let_def)
    ultimately show False using "1"(1) inv by blast
  qed
qed

lemma split_ranges_diverges:
  "takes_split iv i st \<Longrightarrow> invuln_end iv < invuln_start iv \<Longrightarrow> split_ranges iv i st = None"
  using split_ranges_diverges_aux [of iv i st] by (cases "split_ranges iv i st") auto

section \<open>The event handlers\<close>

lemma find_index_None: "find_index P xs = None \<longleftrightarrow> (\<forall>x\<in>set xs. \<not> P x)"
  by (induction xs) auto

lemma find_index_Some: "find_index P xs = Some j \<Longrightarrow> j < length xs \<and> P (xs ! j)"
  by (induction xs arbitrary: j) (auto split: if_splits)

lemma getBuffEventEntity_bound: "getBuffEventEntity p t ev = Some n \<Longrightarrow> n < length (entities t)"
  by (auto simp: getBuffEventEntity_def split: if_splits option.splits dest: find_index_Some)

lemma filter_update_drop:
  "\<not> P y \<Longrightarrow> distinct (map f (filter P xs)) \<Longrightarrow> distinct (map f (filter P (xs[j := y])))"
proof (induction xs arbitrary: j)
  case Nil
  then show ?case by simp
next
  case (Cons x xs)
  have sub: "set (filter P (xs[k := y])) \<subseteq> set (filter P xs)" for k
    using Cons.prems(1) by (auto dest: set_update_subset_insert [THEN subsetD])
  show ?case
  proof (cases j)
    case 0
    then show ?thesis using Cons.prems by (auto split: if_splits)
  next
    case (Suc k)
    then show ?thesis using Cons.prems Cons.IH [of k] sub [of k] by (auto split: if_splits)
  qed
qed

lemma filter_update_same:
  "j < length xs \<Longrightarrow> f y = f (xs ! j) \<Longrightarrow> P y = P (xs ! j)
   \<Longrightarrow> map f (filter P (xs[j := y])) = map f (filter P xs)"
proof (induction xs arbitrary: j)
  case Nil
  then show ?case by simp
next
  case (Cons x xs)
  then show ?case by (cases j) auto
qed

lemma one_open_close:
  "one_open bs \<Longrightarrow> buff_end b' \<noteq> None \<Longrightarrow> one_open (bs[j := b'])"
  unfolding one_open_def by (rule filter_update_drop) auto

lemma one_open_same:
  "one_open bs \<Longrightarrow> j < length bs \<Longrightarrow> ability_guid b' = ability_guid (bs ! j)
   \<Longrightarrow> buff_end b' = buff_end (bs ! j) \<Longrightarrow> one_open (bs[j := b'])"
  unfolding one_open_def
  using filter_update_same [of j bs ability_guid b' "\<lambda>b. buff_end b = None"] by simp

lemma one_open_push_closed: "one_open bs \<Longrightarrow> buff_end b \<noteq> None \<Longrightarrow> one_open (bs @ [b])"
  by (auto simp: one_open_def)

lemma one_open_push_fresh:
  "one_open bs \<Longrightarrow> find_index (is_open (ability_guid b)) bs = None \<Longrightarrow> one_open (bs @ [b])"
  by (auto simp: one_open_def find_index_None is_open_def)

lemma tracker_inv_update:
  "tracker_inv t \<Longrightarrow> one_open bs \<Longrightarrow> entities t' = (entities t)[n := e\<lparr>buffs := bs\<rparr>]
   \<Longrightarrow> tracker_inv t'"
  by (auto simp: tracker_inv_def list_all_iff dest!: set_update_subset_insert [THEN subsetD])

lemma tracker_inv_nth: "tracker_inv t \<Longrightarrow> n < length (entities t) \<Longrightarrow> one_open (buffs (entities t ! n))"
  by (simp add: tracker_inv_def list_all_length)

lemma new_buff_sel [simp]:
  "ability_guid (new_buff ev st deb) = ability_guid ev"
  "sourceID (new_buff ev st deb) = sourceID ev"
  "buff_start (new_buff ev st deb) = st"
  "buff_end (new_buff ev st deb) = None"
  "stackHistory (new_buff ev st deb) = [\<lparr>h_stacks = Some 1, h_timestamp = st\<rparr>]"
  "isDebuff (new_buff ev st deb) = deb"
  "stacks (new_buff ev st deb) = None"
  by (simp_all add: new_buff_def event.defs buff.defs)

lemma entities_trigger [simp]: "entities (triggerChangeBuffStack b ts old new t) = entities t"
  by (simp add: triggerChangeBuffStack_def)

lemma applyBuff_inv:
  assumes "tracker_inv t" and "apply_is_fresh p t ev" and "is_apply ev"
  shows "tracker_inv (applyBuff p ev deb t)"
proof (cases "getBuffEventEntity p t ev")
  case None
  then show ?thesis using assms by (simp add: applyBuff_def)
next
  case (Some n)
  then have n: "n < length (entities t)" by (rule getBuffEventEntity_bound)
  let ?b = "(new_buff ev (timestamp ev) deb)\<lparr>stacks := Some 1\<rparr>"
  have "find_index (is_open (ability_guid ?b)) (buffs (entities t ! n)) = None"
    using assms(2,3) Some by (simp add: apply_is_fresh_def)
  then have "one_open (buffs (entities t ! n) @ [?b])"
    using tracker_inv_nth [OF assms(1) n] by (rule one_open_push_fresh [rotated])
  then show ?thesis
    using Some assms(1) by (auto simp: applyBuff_def Let_def intro: tracker_inv_update)
qed

lemma updateBuffStack_inv:
  assumes "tracker_inv t"
  shows "tracker_inv (updateBuffStack p ev t)"
proof (cases "getBuffEventEntity p t ev")
  case None
  then show ?thesis using assms by (simp add: updateBuffStack_def)
next
  case (Some n)
  then have n: "n < length (entities t)" by (rule getBuffEventEntity_bound)
  note oo = tracker_inv_nth [OF assms n]
  show ?thesis
  proof (cases "find_index (is_open (ability_guid ev)) (buffs (entities t ! n))")
    case None
    then show ?thesis using Some assms by (simp add: updateBuffStack_def tracker_inv_def)
  next
    case (Some j)
    then have j: "j < length (buffs (entities t ! n))" by (auto dest: find_index_Some)
    let ?b = "buffs (entities t ! n) ! j"
    let ?b' = "?b\<lparr>stacks := stack ev,
                  stackHistory := stackHistory ?b @ [\<lparr>h_stacks = stack ev, h_timestamp = timestamp ev\<rparr>]\<rparr>"
    have "one_open ((buffs (entities t ! n))[j := ?b'])"
      using oo j by (rule one_open_same) simp_all
    then show ?thesis
      using Some \<open>getBuffEventEntity p t ev = Some n\<close> assms
      by (auto simp: updateBuffStack_def Let_def intro: tracker_inv_update)
  qed
qed

lemma removeBuff_inv:
  assumes "tracker_inv t"
  shows "tracker_inv (removeBuff p ev deb t)"
proof (cases "getBuffEventEntity p t ev")
  case None
  then show ?thesis using assms by (simp add: removeBuff_def)
next
  case (Some n)
  then have n: "n < length (entities t)" by (rule getBuffEventEntity_bound)
  note oo = tracker_inv_nth [OF assms n]
  show ?thesis
  proof (cases "find_index (is_open (ability_guid ev)) (buffs (entities t ! n))")
    case None
    have "one_open (buffs (entities t ! n) @ [b])" if "buff_end b \<noteq> None" for b
      using oo that by (rule one_open_push_closed)
    then show ?thesis
      using None Some assms
      by (auto simp: removeBuff_def Let_def intro!: tracker_inv_update [OF assms])
  next
    case (Some j)
    have "one_open ((buffs (entities t ! n))[j := b])" if "buff_end b \<noteq> None" for b
      using oo that by (rule one_open_close)
    then show ?thesis
      using Some \<open>getBuffEventEntity p t ev = Some n\<close> assms
      by (auto simp: removeBuff_def Let_def intro!: tracker_inv_update [OF assms])
  qed
qed

lemma on_event_inv:
  "tracker_inv t \<Longrightarrow> apply_is_fresh p t ev \<Longrightarrow> tracker_inv (on_event p ev t)"
  by (cases "etype ev")
    (auto simp: is_apply_def intro: applyBuff_inv updateBuffStack_inv removeBuff_inv)


lemma run_inv:
  "tracker_inv t \<Longrightarrow> no_reapply p t evs \<Longrightarrow> tracker_inv (fold (on_event p) evs t)"
proof (induction evs arbitrary: t)
  case Nil
  then show ?case by simp
next
  case (Cons ev evs)
  from Cons.prems have "tracker_inv (on_event p ev t)" and "no_reapply p (on_event p ev t) evs"
    by (simp_all add: on_event_inv del: on_event.simps)
  then have "tracker_inv (fold (on_event p) evs (on_event p ev t))" by (rule Cons.IH)
  then show ?case by (simp del: on_event.simps)
qed

lemma no_reapply_take: "no_reapply p t evs \<Longrightarrow> no_reapply p t (take k evs)"
proof (induction evs arbitrary: t k)
  case Nil
  then show ?case by simp
next
  case (Cons ev evs)
  then show ?case by (cases k) (simp_all del: on_event.simps)
qed

text \<open>
  C4 (as amended). \<open>applyBuff\<close> pushes a new open buff without looking for an open one,
  so the tracker keeps at most one open buff per entity and ability only for logs that
  do not apply a buff again while it is open: for every sequence of apply, stack and
  remove events in which no apply event arrives for an entity and ability that have an
  open buff at that moment, after each event every entity's buff list holds at most one
  open buff per ability. Stack updates and removals always preserve this.
\<close>

theorem one_open_buff_without_reapply:
  assumes "tracker_inv t" and "no_reapply p t evs"
  shows "\<forall>k\<le>length evs. tracker_inv (fold (on_event p) (take k evs) t)"
  using assms by (auto intro: run_inv no_reapply_take)

text \<open>Two apply events of one ability on one entity leave two open buffs.\<close>

theorem applyBuff_twice_counterexample:
  "\<not> tracker_inv (fold (on_event (ex_env (\<lambda>_. []))) [ex_event ApplyBuff 10, ex_event ApplyBuff 20]
        (ex_tracker []))"
  by (simp add: tracker_inv_def one_open_def ex_env_def ex_event_def ex_tracker_def applyBuff_def
      getBuffEventEntity_def Let_def)

theorem one_open_buff_without_reapply_witness:
  "tracker_inv (fold (on_event (ex_env (\<lambda>_. [])))
      [ex_event ApplyBuff 10, ex_event ApplyBuffStack 12, ex_event RemoveBuff 20, ex_event ApplyBuff 30]
      (ex_tracker []))"
proof -
  let ?evs = "[ex_event ApplyBuff 10, ex_event ApplyBuffStack 12, ex_event RemoveBuff 20, ex_event ApplyBuff 30]"
  have a: "tracker_inv (ex_tracker [])"
    by (simp add: tracker_inv_def one_open_def ex_tracker_def)
  have b: "no_reapply (ex_env (\<lambda>_. [])) (ex_tracker []) ?evs"
    by (simp add: apply_is_fresh_def is_apply_def ex_env_def ex_event_def ex_tracker_def applyBuff_def
        updateBuffStack_def removeBuff_def getBuffEventEntity_def triggerChangeBuffStack_def is_open_def Let_def)
  show ?thesis
    using one_open_buff_without_reapply [OF a b] by (auto dest: spec [of _ 4])
qed

text \<open>
  C6. A stack update for which the entity resolves but holds no open buff of the
  ability is dropped: the entities, with every buff list, stack count and stack history,
  are as before, no stack-change event is fabricated, and the only effect is the line
  written to the console.
\<close>

theorem updateBuffStack_without_open_buff:
  assumes "getBuffEventEntity p t ev = Some n"
    and "\<forall>b\<in>set (buffs (entities t ! n)). \<not> is_open (ability_guid ev) b"
  shows "entities (updateBuffStack p ev t) = entities t
    \<and> fabricated (updateBuffStack p ev t) = fabricated t
    \<and> updateBuffStack p ev t = t\<lparr>console := console t @ [stack_warning]\<rparr>"
proof -
  have "find_index (is_open (ability_guid ev)) (buffs (entities t ! n)) = None"
    using assms(2) by (simp add: find_index_None)
  then show ?thesis using assms(1) by (simp add: updateBuffStack_def)
qed

theorem updateBuffStack_without_open_buff_witness:
  "entities (on_event (ex_env (\<lambda>_. [])) (ex_event ApplyBuffStack 12)
       (ex_tracker [ex_buff (Some 1) 3 (Some 8)]))
     = entities (ex_tracker [ex_buff (Some 1) 3 (Some 8)])
   \<and> fabricated (on_event (ex_env (\<lambda>_. [])) (ex_event ApplyBuffStack 12)
       (ex_tracker [ex_buff (Some 1) 3 (Some 8)])) = []"
  using updateBuffStack_without_open_buff [of "ex_env (\<lambda>_. [])"
      "ex_tracker [ex_buff (Some 1) 3 (Some 8)]" "ex_event ApplyBuffStack 12" 0]
  by (simp add: getBuffEventEntity_def is_open_def ex_env_def ex_event_def ex_tracker_def)

section \<open>Overlapping buffs, and a window inside a buff\<close>

lemma split_inside:
  assumes "ref_start b r < invuln_start iv" and "invuln_start iv \<le> invuln_end iv"
    and "invuln_end iv < e" and "ref_end b r = Some e"
  shows "split_ranges iv 0 (b, [r]) =
    Some (b, [RangeObj \<lparr>range_start = ref_start b r, range_end = Some (invuln_start iv)\<rparr>,
              RangeObj \<lparr>range_start = invuln_end iv, range_end = Some e\<rparr>])"
proof -
  let ?st = "(b, [RangeObj \<lparr>range_start = ref_start b r, range_end = Some (invuln_start iv)\<rparr>,
              RangeObj \<lparr>range_start = invuln_end iv, range_end = Some e\<rparr>])"
  have 2: "split_ranges iv (Suc (Suc 0)) ?st = Some ?st"
    by (subst split_ranges.simps) simp
  have 1: "split_ranges iv (Suc 0) ?st = split_ranges iv (Suc (Suc 0)) ?st"
    using assms by (subst split_ranges.simps) (simp add: Let_def)
  have 0: "split_ranges iv 0 (b, [r]) = split_ranges iv (Suc 0) ?st"
    using assms by (subst split_ranges.simps) (simp add: Let_def splice_def)
  show ?thesis using 0 1 2 by simp
qed

text \<open>
  C1. When the query selects exactly two buffs, both closed (with nonzero ends, since an
  end of 0 is read as "still open") and with overlapping intervals, and the entities
  holding them have no invulnerability window, the uptime is the length of the union of
  the two intervals: the overlapped region is counted once. The tracker is left as it is.
\<close>

theorem overlapping_buffs_union:
  assumes "selected sid (default_source p src) (entities t) = [(ka, a), (kb, b)]"
    and "invulnerable_of p ka = []" and "invulnerable_of p kb = []"
    and "buff_end a = Some ea" and "buff_end b = Some eb" and "ea \<noteq> 0" and "eb \<noteq> 0"
    and "buff_start a \<le> ea" and "buff_start b \<le> eb"
    and "buff_start a \<le> eb" and "buff_start b \<le> ea"
  shows "getStatusUptime p sid src t = Some (max ea eb - min (buff_start a) (buff_start b), t)"
proof -
  have "\<forall>(k, c)\<in>set (selected sid (default_source p src) (entities t)).
      subtract_invulns (invulnerable_of p k) (c, [BuffRef]) = Some (c, [BuffRef])"
    using assms(1-3) by auto
  from getStatusUptime_frame [OF this]
  have "getStatusUptime p sid src t =
      Some (reduce_events
        [\<lparr>fe_timestamp = buff_start a, fe_type = APPLY\<rparr>, \<lparr>fe_timestamp = ea, fe_type = REMOVE\<rparr>,
         \<lparr>fe_timestamp = buff_start b, fe_type = APPLY\<rparr>, \<lparr>fe_timestamp = eb, fe_type = REMOVE\<rparr>], t)"
    using assms(1,4-7) by (simp add: range_events_def)
  then show ?thesis
    using reduce_two_overlapping [OF assms(8-11)] by simp
qed

text \<open>Buff A over [0, 10] from the player and buff B over [5, 15] with no source: 15, not 20.\<close>

theorem overlapping_buffs_union_witness:
  "getStatusUptime (ex_env (\<lambda>_. [])) 7 None
     (ex_tracker [ex_buff (Some 1) 0 (Some 10), ex_buff None 5 (Some 15)])
   = Some (15, ex_tracker [ex_buff (Some 1) 0 (Some 10), ex_buff None 5 (Some 15)])"
  using overlapping_buffs_union [of 7 "ex_env (\<lambda>_. [])" None
      "ex_tracker [ex_buff (Some 1) 0 (Some 10), ex_buff None 5 (Some 15)]"
      2 "ex_buff (Some 1) 0 (Some 10)" 2 "ex_buff None 5 (Some 15)" 10 15]
  by (simp add: selected_def invulnerable_of_def ex_env_def ex_tracker_def)

text \<open>
  C3. For a closed buff (timestamps are not negative) that is the only one selected, and a
  single invulnerability window \<open>start \<le> end\<close> strictly inside it, the subtraction
  produces exactly the two ranges \<open>[buff.start, invuln.start]\<close> and
  \<open>[invuln.end, buff.end]\<close>, and the uptime is the length of the buff less the length of
  the window.
\<close>

theorem invuln_inside_buff_splits:
  assumes "selected sid (default_source p src) (entities t) = [(k, b)]"
    and "invulnerable_of p k = [iv]"
    and "buff_end b = Some e" and "0 \<le> buff_start b"
    and "buff_start b < invuln_start iv" and "invuln_start iv \<le> invuln_end iv"
    and "invuln_end iv < e"
  shows "subtract_invulns [iv] (b, [BuffRef]) =
      Some (b, [RangeObj \<lparr>range_start = buff_start b, range_end = Some (invuln_start iv)\<rparr>,
                RangeObj \<lparr>range_start = invuln_end iv, range_end = Some e\<rparr>])
    \<and> getStatusUptime p sid src t =
      Some ((e - buff_start b) - (invuln_end iv - invuln_start iv), t)"
proof -
  let ?rs = "[RangeObj \<lparr>range_start = buff_start b, range_end = Some (invuln_start iv)\<rparr>,
              RangeObj \<lparr>range_start = invuln_end iv, range_end = Some e\<rparr>]"
  have sub: "subtract_invulns [iv] (b, [BuffRef]) = Some (b, ?rs)"
    using assms(3,5-7) split_inside [of b BuffRef iv e] by simp
  then have "\<forall>(k', c)\<in>set (selected sid (default_source p src) (entities t)).
      subtract_invulns (invulnerable_of p k') (c, [BuffRef]) = Some (c, ?rs)"
    using assms(1,2) by simp
  from getStatusUptime_frame [OF this]
  have "getStatusUptime p sid src t =
      Some (reduce_events
        [\<lparr>fe_timestamp = buff_start b, fe_type = APPLY\<rparr>,
         \<lparr>fe_timestamp = invuln_start iv, fe_type = REMOVE\<rparr>,
         \<lparr>fe_timestamp = invuln_end iv, fe_type = APPLY\<rparr>,
         \<lparr>fe_timestamp = e, fe_type = REMOVE\<rparr>], t)"
    using assms(1,4-7) by (simp add: range_events_def)
  moreover have "reduce_events
        [\<lparr>fe_timestamp = buff_start b, fe_type = APPLY\<rparr>,
         \<lparr>fe_timestamp = invuln_start iv, fe_type = REMOVE\<rparr>,
         \<lparr>fe_timestamp = invuln_end iv, fe_type = APPLY\<rparr>,
         \<lparr>fe_timestamp = e, fe_type = REMOVE\<rparr>]
      = (e - buff_start b) - (invuln_end iv - invuln_start iv)"
    using assms(5-7) by (auto simp: sweep_defs Let_def)
  ultimately show ?thesis using sub by simp
qed

theorem invuln_inside_buff_splits_witness:
  "subtract_invulns [ex_invuln 12 15] (ex_buff (Some 1) 10 (Some 20), [BuffRef]) =
      Some (ex_buff (Some 1) 10 (Some 20),
            [RangeObj \<lparr>range_start = 10, range_end = Some 12\<rparr>,
             RangeObj \<lparr>range_start = 15, range_end = Some 20\<rparr>])
   \<and> getStatusUptime (ex_env (\<lambda>_. [ex_invuln 12 15])) 7 None (ex_tracker [ex_buff (Some 1) 10 (Some 20)])
      = Some (7, ex_tracker [ex_buff (Some 1) 10 (Some 20)])"
  using invuln_inside_buff_splits [of 7 "ex_env (\<lambda>_. [ex_invuln 12 15])" None
      "ex_tracker [ex_buff (Some 1) 10 (Some 20)]" 2 "ex_buff (Some 1) 10 (Some 20)"
      "ex_invuln 12 15" 20]
  by (simp add: selected_def invulnerable_of_def ex_env_def ex_tracker_def ex_invuln_def)

section \<open>Removal without an open buff\<close>

lemma selected_append: "selected sid src (es @ fs) = selected sid src es @ selected sid src fs"
  by (simp add: selected_def)

lemma selected_empty:
  "selected sid src es = [] \<longleftrightarrow> (\<forall>e\<in>set es. \<forall>b\<in>set (buffs e). skipped sid src b)"
  by (auto simp: selected_def filter_empty_conv)

lemma selected_push:
  assumes "n < length es" and "selected sid src es = []" and "\<not> skipped sid src b"
  shows "selected sid src (es[n := (es ! n)\<lparr>buffs := buffs (es ! n) @ [b]\<rparr>])
    = [(entity_id (es ! n), b)]"
proof -
  have all: "\<forall>e\<in>set es. \<forall>c\<in>set (buffs e). skipped sid src c"
    using assms(2) by (simp add: selected_empty)
  have "selected sid src (take n es) = []" and "selected sid src (drop (Suc n) es) = []"
    using all by (auto simp: selected_empty dest: in_set_takeD in_set_dropD)
  moreover have "filter (\<lambda>c. \<not> skipped sid src c) (buffs (es ! n)) = []"
    using all nth_mem [OF assms(1)] by (auto simp: filter_empty_conv)
  ultimately show ?thesis
    using assms(1,3) by (simp add: upd_conv_take_nth_drop selected_append) (simp add: selected_def)
qed

lemma removeBuff_entities:
  assumes "getBuffEventEntity p t ev = Some n"
    and "\<forall>b\<in>set (buffs (entities t ! n)). \<not> is_open (ability_guid ev) b"
  shows "entities (removeBuff p ev deb t)
      = (entities t)[n := (entities t ! n)
            \<lparr>buffs := buffs (entities t ! n) @ [synthesized p ev deb]\<rparr>]"
proof -
  have "find_index (is_open (ability_guid ev)) (buffs (entities t ! n)) = None"
    using assms(2) by (simp add: find_index_None)
  then show ?thesis
    using assms(1) by (simp add: removeBuff_def Let_def synthesized_def)
qed

text \<open>
  C5. A removal for which the entity resolves but holds no open buff of the ability
  appends one buff to that entity's list: it starts at the start of the fight, its stack
  history begins with one stack at that time, and it is closed at the timestamp of the
  event (not 0, which would read as "still open") with a final entry of 0 stacks. When
  no other buff is selected by the query for that status and the entity has no
  invulnerability window, the uptime is the whole span from the start of the fight to
  the removal.
\<close>

theorem removeBuff_without_open_buff:
  assumes "getBuffEventEntity p t ev = Some n"
    and "\<forall>b\<in>set (buffs (entities t ! n)). \<not> is_open (ability_guid ev) b"
    and "selected (ability_guid ev) (default_source p src) (entities t) = []"
    and "sourceID ev = Some (default_source p src) \<or> sourceID ev = None"
    and "invulnerable_of p (entity_id (entities t ! n)) = []"
    and "fight_start_time p \<le> timestamp ev" and "timestamp ev \<noteq> 0"
  shows "buffs (entities (removeBuff p ev deb t) ! n)
      = buffs (entities t ! n) @ [synthesized p ev deb]
    \<and> buff_start (synthesized p ev deb) = fight_start_time p
    \<and> buff_end (synthesized p ev deb) = Some (timestamp ev)
    \<and> stackHistory (synthesized p ev deb)
      = [\<lparr>h_stacks = Some 1, h_timestamp = fight_start_time p\<rparr>,
         \<lparr>h_stacks = Some 0, h_timestamp = timestamp ev\<rparr>]
    \<and> getStatusUptime p (ability_guid ev) src (removeBuff p ev deb t)
      = Some (timestamp ev - fight_start_time p, removeBuff p ev deb t)"
proof -
  let ?t = "removeBuff p ev deb t"
  let ?b = "synthesized p ev deb"
  note ents = removeBuff_entities [OF assms(1,2), of deb]
  have n: "n < length (entities t)" using assms(1) by (rule getBuffEventEntity_bound)
  have "\<not> skipped (ability_guid ev) (default_source p src) ?b"
    using assms(4) by (auto simp: skipped_def synthesized_def)
  then have sel: "selected (ability_guid ev) (default_source p src) (entities ?t)
      = [(entity_id (entities t ! n), ?b)]"
    unfolding ents using n assms(3) by (intro selected_push)
  then have "\<forall>(k, c)\<in>set (selected (ability_guid ev) (default_source p src) (entities ?t)).
      subtract_invulns (invulnerable_of p k) (c, [BuffRef]) = Some (c, [BuffRef])"
    using assms(5) by simp
  from getStatusUptime_frame [OF this]
  have "getStatusUptime p (ability_guid ev) src ?t =
      Some (reduce_events
        [\<lparr>fe_timestamp = fight_start_time p, fe_type = APPLY\<rparr>,
         \<lparr>fe_timestamp = timestamp ev, fe_type = REMOVE\<rparr>], ?t)"
    using assms(7) by (simp add: sel range_events_def synthesized_def)
  moreover have "reduce_events
        [\<lparr>fe_timestamp = fight_start_time p, fe_type = APPLY\<rparr>,
         \<lparr>fe_timestamp = timestamp ev, fe_type = REMOVE\<rparr>] = timestamp ev - fight_start_time p"
    using assms(6) by (simp add: sweep_defs Let_def)
  moreover have "buffs (entities ?t ! n) = buffs (entities t ! n) @ [?b]"
    using n by (simp add: ents)
  ultimately show ?thesis by (simp add: synthesized_def)
qed

text \<open>A fight that starts at 2 and a removal at 20 with nothing tracked before: uptime 18.\<close>

theorem removeBuff_without_open_buff_witness:
  "map_option fst (getStatusUptime (ex_env (\<lambda>_. [])) 7 None
      (removeBuff (ex_env (\<lambda>_. [])) (ex_event RemoveBuff 20) False (ex_tracker []))) = Some 18
   \<and> buffs (entities (removeBuff (ex_env (\<lambda>_. [])) (ex_event RemoveBuff 20) False (ex_tracker [])) ! 0)
      = [synthesized (ex_env (\<lambda>_. [])) (ex_event RemoveBuff 20) False]
   \<and> buff_start (synthesized (ex_env (\<lambda>_. [])) (ex_event RemoveBuff 20) False) = 2
   \<and> buff_end (synthesized (ex_env (\<lambda>_. [])) (ex_event RemoveBuff 20) False) = Some 20"
  using removeBuff_without_open_buff [of "ex_env (\<lambda>_. [])" "ex_tracker []"
      "ex_event RemoveBuff 20" 0 None False]
  by (simp add: getBuffEventEntity_def selected_def invulnerable_of_def synthesized_def
      ex_env_def ex_event_def ex_tracker_def)

section \<open>Windows that cover a buff, and what the query writes\<close>

text \<open>
  C2. The code at three inputs, each with the window \<open>invulnerable\<close> on the entity
  of buff A over [10, 20]. A window over [5, 25] around A alone gives uptime 0. A window
  over exactly [10, 20] matches none of the three branches, which compare strictly, and A
  is counted in full: uptime 10. A window over [5, 25], with a second buff B over
  [3, 22] on another entity, turns A into the range [25, 20], whose removal is sorted
  before its application and ends the count of B early: uptime 17, where B alone
  gives 19.
\<close>

theorem invuln_covering_buff:
  "map_option fst (getStatusUptime (ex_env (on_entity_2 [ex_invuln 5 25])) 7 None
      (ex_tracker [ex_buff (Some 1) 10 (Some 20)])) = Some 0
   \<and> map_option fst (getStatusUptime (ex_env (on_entity_2 [ex_invuln 10 20])) 7 None
      (ex_tracker [ex_buff (Some 1) 10 (Some 20)])) = Some 10
   \<and> map_option fst (getStatusUptime (ex_env (on_entity_2 [ex_invuln 5 25])) 7 None
      (ex_tracker2 [ex_buff (Some 1) 10 (Some 20)] [ex_buff (Some 1) 3 (Some 22)])) = Some 17
   \<and> map_option fst (getStatusUptime (ex_env (on_entity_2 [ex_invuln 5 25])) 7 None
      (ex_tracker2 [] [ex_buff (Some 1) 3 (Some 22)])) = Some 19"
  by code_simp

text \<open>
  C9. The code at two inputs. The array of ranges starts with the buff itself, so the
  branches that chop a range write the buff. With buff A over [10, 30] and a window over
  [5, 20], the query returns 10 and leaves A starting at 20. With A over [10, 20], a
  window over [5, 25] and buff B over [3, 22] on another entity, the first query
  returns 17 and leaves A as [25, 20]; the same query on the tracker it left returns 2
  and leaves A as [25, 5].
\<close>

theorem getStatusUptime_writes_buffs:
  "getStatusUptime (ex_env (on_entity_2 [ex_invuln 5 20])) 7 None
      (ex_tracker [ex_buff (Some 1) 10 (Some 30)])
     = Some (10, ex_tracker [(ex_buff (Some 1) 10 (Some 30))\<lparr>buff_start := 20\<rparr>])
   \<and> getStatusUptime (ex_env (on_entity_2 [ex_invuln 5 25])) 7 None
      (ex_tracker2 [ex_buff (Some 1) 10 (Some 20)] [ex_buff (Some 1) 3 (Some 22)])
     = Some (17, ex_tracker2 [(ex_buff (Some 1) 10 (Some 20))\<lparr>buff_start := 25\<rparr>]
                   [ex_buff (Some 1) 3 (Some 22)])
   \<and> getStatusUptime (ex_env (on_entity_2 [ex_invuln 5 25])) 7 None
      (ex_tracker2 [(ex_buff (Some 1) 10 (Some 20))\<lparr>buff_start := 25\<rparr>]
         [ex_buff (Some 1) 3 (Some 22)])
     = Some (2, ex_tracker2 [(ex_buff (Some 1) 10 (Some 20))\<lparr>buff_start := 25, buff_end := Some 5\<rparr>]
                   [ex_buff (Some 1) 3 (Some 22)])"
  by code_simp

text \<open>A window with \<open>end < start\<close> inside a buff: the query never returns.\<close>

lemma inverted_window_never_returns:
  "getStatusUptime (ex_env (on_entity_2 [ex_invuln 16 14])) 7 None
      (ex_tracker [ex_buff (Some 1) 10 (Some 20)]) = None"
proof -
  have "split_ranges (ex_invuln 16 14) 0 (ex_buff (Some 1) 10 (Some 20), [BuffRef]) = None"
    by (rule split_ranges_diverges) (simp_all add: takes_split_def ex_invuln_def)
  then show ?thesis
    by (simp add: getStatusUptime_def invulnerable_of_def ex_env_def on_entity_2_def
        ex_tracker_def ex_invuln_def)
qed

section \<open>A whole log\<close>

text \<open>
  Applied at 0, raised to two stacks at 5 and removed at 20, with no invulnerability
  window: the uptime is 20 and the stack history is 1 at 0, 2 at 5, 0 at 20.
\<close>

lemma apply_stack_remove_scenario:
  "map_option fst (getStatusUptime (ex_env (\<lambda>_. [])) 7 None
      (fold (on_event (ex_env (\<lambda>_. [])))
         [ex_event ApplyBuff 0, (ex_event ApplyBuffStack 5)\<lparr>stack := Some 2\<rparr>, ex_event RemoveBuff 20]
         (ex_tracker []))) = Some 20
   \<and> map (map stackHistory \<circ> buffs) (entities
      (fold (on_event (ex_env (\<lambda>_. [])))
         [ex_event ApplyBuff 0, (ex_event ApplyBuffStack 5)\<lparr>stack := Some 2\<rparr>, ex_event RemoveBuff 20]
         (ex_tracker [])))
     = [[[\<lparr>h_stacks = Some 1, h_timestamp = 0\<rparr>, \<lparr>h_stacks = Some 2, h_timestamp = 5\<rparr>,
          \<lparr>h_stacks = Some 0, h_timestamp = 20\<rparr>]]]"
  by code_simp

end
